theory Spec2Isabelle
  imports Complex_Main "HOL-Library.AList"
begin

section \<open>Python values\<close>

text \<open>
  A backend response is the value \<open>response.json()\<close> returns. An object is an association
  list in insertion order; the first binding of a key is the one that counts (\<open>map_of\<close>
  for a lookup, \<open>AList.clearjunk\<close> for the iteration order of \<open>.items()\<close>). A string is a
  list of characters, each a code point below 256.
\<close>

datatype json =
    JNull
  | JBool bool
  | JInt int
  | JFloat real
  | JStr string
  | JList "json list"
  | JObj "(string \<times> json) list"

type_synonym pydict = "(string \<times> json) list"

datatype py_error =
    AssertionError
  | AttributeError
  | TypeError
  | ValueError
  | HTTPError
  | JSONDecodeError
  | ConnectionError
  | Timeout

text \<open>Python's truth value of an object, as \<open>if x:\<close> and \<open>x and y\<close> test it.\<close>

fun truthy :: "json \<Rightarrow> bool" where
  "truthy JNull = False"
| "truthy (JBool b) = b"
| "truthy (JInt i) = (i \<noteq> 0)"
| "truthy (JFloat x) = (x \<noteq> 0)"
| "truthy (JStr s) = (s \<noteq> [])"
| "truthy (JList xs) = (xs \<noteq> [])"
| "truthy (JObj kvs) = (kvs \<noteq> [])"

text \<open>\<open>isinstance(x, str)\<close>.\<close>

fun is_str :: "json \<Rightarrow> bool" where
  "is_str (JStr s) = True"
| "is_str _ = False"

text \<open>\<open>d.get(key, default)\<close> on a dict.\<close>

definition dict_get :: "pydict \<Rightarrow> string \<Rightarrow> json \<Rightarrow> json" where
  "dict_get d key dflt = (case map_of d key of Some v \<Rightarrow> v | None \<Rightarrow> dflt)"

text \<open>\<open>x.get(key, default)\<close> on any value: only a dict has the method.\<close>

fun py_get :: "json \<Rightarrow> string \<Rightarrow> json \<Rightarrow> py_error + json" where
  "py_get (JObj d) key dflt = Inr (dict_get d key dflt)"
| "py_get _ key dflt = Inl AttributeError"

text \<open>\<open>x.items()\<close> on any value.\<close>

fun py_items :: "json \<Rightarrow> py_error + (string \<times> json) list" where
  "py_items (JObj d) = Inr (AList.clearjunk d)"
| "py_items _ = Inl AttributeError"

text \<open>
  The text an f-string puts for \<open>{x}\<close>: a string stands for itself; for every other value
  it is Python's \<open>str(x)\<close>, which the model takes as the parameter \<open>str_of\<close>.
\<close>

fun py_str :: "(json \<Rightarrow> string) \<Rightarrow> json \<Rightarrow> string" where
  "py_str str_of (JStr s) = s"
| "py_str str_of v = str_of v"

text \<open>\<open>xs[:n]\<close>: a negative bound counts from the end.\<close>

definition py_slice_to :: "int \<Rightarrow> 'a list \<Rightarrow> 'a list" where
  "py_slice_to n xs =
     (if 0 \<le> n then take (nat n) xs else take (length xs - nat (- n)) xs)"

text \<open>\<open>s.replace('\n', ' ')\<close>.\<close>

definition replace_newlines :: "string \<Rightarrow> string" where
  "replace_newlines s = map (\<lambda>c. if c = CHR 0x0A then CHR '' '' else c) s"

text \<open>\<open>sep.join(xs)\<close>: every element must be a string.\<close>

fun py_join :: "string \<Rightarrow> json list \<Rightarrow> py_error + string" where
  "py_join sep [] = Inr []"
| "py_join sep [JStr s] = Inr s"
| "py_join sep (JStr s # x # xs) =
     (case py_join sep (x # xs) of Inl e \<Rightarrow> Inl e | Inr t \<Rightarrow> Inr (s @ sep @ t))"
| "py_join sep (_ # xs) = Inl TypeError"

section \<open>The search client (eval/fire/query\_serper.py)\<close>

definition NO_RESULT_MSG :: string where
  "NO_RESULT_MSG = ''No good Google Search result was found''"

datatype search_type = News | Search | Places | Images

record SerperAPI =
  serper_api_key :: string
  gl :: string
  hl :: string
  top_k :: int
  tbs :: "string option"
  search_type :: search_type

fun result_key_for_type :: "search_type \<Rightarrow> string" where
  "result_key_for_type News = ''news''"
| "result_key_for_type Places = ''places''"
| "result_key_for_type Images = ''images''"
| "result_key_for_type Search = ''organic''"

text \<open>One element of the list \<open>_parse_snippets_with_links\<close> returns.\<close>

record item =
  snippet :: json
  link :: json
  title :: json

subsection \<open>\<open>_parse_snippets_with_links\<close>\<close>

text \<open>
  The source appends to one list \<open>items\<close> in three blocks and an exception leaves the
  function; the model gives each block its own list and concatenates them in the same order.
\<close>

definition answer_box_items :: "pydict \<Rightarrow> py_error + item list" where
  "answer_box_items results =
     (if truthy (dict_get results ''answerBox'' JNull) then
        (let answer_box = dict_get results ''answerBox'' (JObj []) in
         case py_get answer_box ''answer'' JNull of Inl e \<Rightarrow> Inl e | Inr answer \<Rightarrow>
         case py_get answer_box ''snippet'' JNull of Inl e \<Rightarrow> Inl e | Inr snip \<Rightarrow>
         case py_get answer_box ''link'' (JStr []) of Inl e \<Rightarrow> Inl e | Inr lnk \<Rightarrow>
           Inr ((if truthy answer \<and> is_str answer
                 then [\<lparr>snippet = answer, link = lnk, title = JStr ''Answer Box''\<rparr>]
                 else [])
              @ (case snip of
                   JStr s \<Rightarrow>
                     (if truthy snip
                      then [\<lparr>snippet = JStr (replace_newlines s), link = lnk,
                              title = JStr ''Answer Box''\<rparr>]
                      else [])
                 | _ \<Rightarrow> [])))
      else Inr [])"

definition knowledge_graph_items :: "(json \<Rightarrow> string) \<Rightarrow> pydict \<Rightarrow> py_error + item list" where
  "knowledge_graph_items str_of results =
     (if truthy (dict_get results ''knowledgeGraph'' JNull) then
        (let kg = dict_get results ''knowledgeGraph'' (JObj []) in
         case py_get kg ''title'' (JStr []) of Inl e \<Rightarrow> Inl e | Inr ttl \<Rightarrow>
         case py_get kg ''type'' JNull of Inl e \<Rightarrow> Inl e | Inr entity_type \<Rightarrow>
         case py_get kg ''description'' JNull of Inl e \<Rightarrow> Inl e | Inr description \<Rightarrow>
         case py_get kg ''website'' (JStr []) of Inl e \<Rightarrow> Inl e | Inr website \<Rightarrow>
         case py_get kg ''descriptionLink'' website of Inl e \<Rightarrow> Inl e | Inr lnk \<Rightarrow>
         case py_get kg ''attributes'' (JObj []) of Inl e \<Rightarrow> Inl e | Inr attrs \<Rightarrow>
         case py_items attrs of Inl e \<Rightarrow> Inl e | Inr avs \<Rightarrow>
           Inr ((if truthy entity_type
                 then [\<lparr>snippet = JStr (py_str str_of ttl @ '': '' @ py_str str_of entity_type @ ''.''),
                         link = lnk, title = JStr ''Knowledge Graph''\<rparr>]
                 else [])
              @ (if truthy description
                 then [\<lparr>snippet = description, link = lnk, title = ttl\<rparr>]
                 else [])
              @ map (\<lambda>(attribute, v).
                       \<lparr>snippet = JStr (py_str str_of ttl @ '' '' @ attribute @ '': ''
                                         @ py_str str_of v @ ''.''),
                        link = lnk, title = ttl\<rparr>) avs))
      else Inr [])"

text \<open>The body of the loop over the ranked results, for one result.\<close>

definition result_items :: "(json \<Rightarrow> string) \<Rightarrow> json \<Rightarrow> py_error + item list" where
  "result_items str_of result =
     (case py_get result ''title'' (JStr ''Search Result'') of Inl e \<Rightarrow> Inl e | Inr ttl \<Rightarrow>
      case py_get result ''link'' (JStr []) of Inl e \<Rightarrow> Inl e | Inr lnk \<Rightarrow>
      case py_get result ''attributes'' (JObj []) of Inl e \<Rightarrow> Inl e | Inr attrs \<Rightarrow>
      case py_items attrs of Inl e \<Rightarrow> Inl e | Inr avs \<Rightarrow>
        Inr ((case result of
                JObj d \<Rightarrow>
                  (case map_of d ''snippet'' of
                     Some s \<Rightarrow> [\<lparr>snippet = s, link = lnk, title = ttl\<rparr>]
                   | None \<Rightarrow> [])
              | _ \<Rightarrow> [])
           @ map (\<lambda>(attribute, v).
                    \<lparr>snippet = JStr (attribute @ '': '' @ py_str str_of v @ ''.''),
                     link = lnk, title = ttl\<rparr>) avs))"

fun ranked_loop :: "(json \<Rightarrow> string) \<Rightarrow> json list \<Rightarrow> py_error + item list" where
  "ranked_loop str_of [] = Inr []"
| "ranked_loop str_of (r # rs) =
     (case result_items str_of r of
        Inl e \<Rightarrow> Inl e
      | Inr xs \<Rightarrow>
          (case ranked_loop str_of rs of Inl e \<Rightarrow> Inl e | Inr ys \<Rightarrow> Inr (xs @ ys)))"

text \<open>
  \<open>results[result_key][:self.k]\<close> as the sequence the loop runs over: a list gives its
  elements, a string its characters (each a string of length one), and no other value can
  be sliced (a dict raises as well: TypeError, or KeyError from Python 3.12 on).
\<close>

fun sliced_results :: "int \<Rightarrow> json \<Rightarrow> py_error + json list" where
  "sliced_results n (JList xs) = Inr (py_slice_to n xs)"
| "sliced_results n (JStr s) = Inr (map (\<lambda>c. JStr [c]) (py_slice_to n s))"
| "sliced_results n _ = Inl TypeError"

definition ranked_items :: "(json \<Rightarrow> string) \<Rightarrow> SerperAPI \<Rightarrow> pydict \<Rightarrow> py_error + item list" where
  "ranked_items str_of self results =
     (case map_of results (result_key_for_type (search_type self)) of
        None \<Rightarrow> Inr []
      | Some v \<Rightarrow>
          (case sliced_results (top_k self) v of
             Inl e \<Rightarrow> Inl e
           | Inr rs \<Rightarrow> ranked_loop str_of rs))"

text \<open>The list \<open>items\<close> as it stands before the final test \<open>if not items\<close>.\<close>

definition extract_items :: "(json \<Rightarrow> string) \<Rightarrow> SerperAPI \<Rightarrow> pydict \<Rightarrow> py_error + item list" where
  "extract_items str_of self results =
     (case answer_box_items results of Inl e \<Rightarrow> Inl e | Inr xs \<Rightarrow>
      case knowledge_graph_items str_of results of Inl e \<Rightarrow> Inl e | Inr ys \<Rightarrow>
      case ranked_items str_of self results of Inl e \<Rightarrow> Inl e | Inr zs \<Rightarrow>
        Inr (xs @ ys @ zs))"

definition no_result_item :: item where
  "no_result_item = \<lparr>snippet = JStr NO_RESULT_MSG, link = JStr [], title = JStr ''No Result''\<rparr>"

definition parse_snippets_with_links ::
  "(json \<Rightarrow> string) \<Rightarrow> SerperAPI \<Rightarrow> pydict \<Rightarrow> py_error + item list" where
  "parse_snippets_with_links str_of self results =
     (case extract_items str_of self results of
        Inl e \<Rightarrow> Inl e
      | Inr items \<Rightarrow> if items = [] then Inr [no_result_item] else Inr items)"

subsection \<open>\<open>_parse_results\<close>\<close>

definition format_item :: "(json \<Rightarrow> string) \<Rightarrow> item \<Rightarrow> json" where
  "format_item str_of it =
     (if truthy (link it)
      then JStr (py_str str_of (snippet it) @ '' [Source: '' @ py_str str_of (link it) @ '']'')
      else snippet it)"

definition serialize_items :: "(json \<Rightarrow> string) \<Rightarrow> item list \<Rightarrow> py_error + string" where
  "serialize_items str_of items = py_join '' '' (map (format_item str_of) items)"

definition parse_results :: "(json \<Rightarrow> string) \<Rightarrow> SerperAPI \<Rightarrow> pydict \<Rightarrow> py_error + string" where
  "parse_results str_of self results =
     (case parse_snippets_with_links str_of self results of
        Inl e \<Rightarrow> Inl e
      | Inr items \<Rightarrow> serialize_items str_of items)"

subsection \<open>\<open>_google_serper_api_results\<close> and \<open>run\<close>\<close>

text \<open>
  What one call of \<open>requests.post\<close> does: it raises, or it returns a response. A
  response carries its status code and its body (\<open>None\<close> when the body is not JSON, so
  that \<open>response.json()\<close> raises).
\<close>

record http_response =
  status_code :: nat
  body :: "json option"

datatype outcome = Raises py_error | Responds http_response

text \<open>
  \<open>Response.ok\<close> of the requests library: \<open>raise_for_status()\<close> raises for a status
  from 400 to 599. The truth value of a response object is \<open>Response.ok\<close>, so
  \<open>not response\<close> holds for \<open>None\<close> and for every response with such a status.
\<close>

definition response_ok :: "http_response \<Rightarrow> bool" where
  "response_ok r = (\<not> (400 \<le> status_code r \<and> status_code r < 600))"

fun not_response :: "http_response option \<Rightarrow> bool" where
  "not_response None = True"
| "not_response (Some r) = (\<not> response_ok r)"

text \<open>
  The local variables of the loop, with the number of requests posted and the delays
  slept so far. The backend is the sequence \<open>post\<close> of outcomes, one for each request;
  \<open>uniform i\<close> is the value \<open>random.uniform(1, 3)\<close> returns when drawn at request \<open>i\<close>.
\<close>

record retry_state =
  response :: "http_response option"
  num_fails :: int
  sleep_time :: real
  attempts :: nat
  sleeps :: "real list"

text \<open>The handler \<open>except Exception\<close>.\<close>

definition fail_once :: "(nat \<Rightarrow> real) \<Rightarrow> retry_state \<Rightarrow> retry_state" where
  "fail_once uniform st =
     (let doubled = min (sleep_time st * 2) 10;
          slept = (if doubled = 0 then uniform (attempts st) else doubled)
      in st\<lparr>response := None, num_fails := num_fails st + 1, sleep_time := slept,
            attempts := Suc (attempts st), sleeps := sleeps st @ [slept]\<rparr>)"

text \<open>The \<open>while\<close> loop. It returns the exception that left it, if any, and the state.\<close>

partial_function (option) retry_loop ::
  "(nat \<Rightarrow> outcome) \<Rightarrow> (nat \<Rightarrow> real) \<Rightarrow> int \<Rightarrow> retry_state
     \<Rightarrow> (py_error option \<times> retry_state) option" where
  "retry_loop post uniform max_retries st =
     (if not_response (response st) \<and> num_fails st < max_retries then
        (case post (attempts st) of
           Responds r \<Rightarrow>
             retry_loop post uniform max_retries
               (st\<lparr>response := Some r, attempts := Suc (attempts st)\<rparr>)
         | Raises e \<Rightarrow>
             if e = AssertionError
             then Some (Some e, st\<lparr>attempts := Suc (attempts st)\<rparr>)
             else retry_loop post uniform max_retries (fail_once uniform st))
      else Some (None, st))"

definition initial_retry_state :: retry_state where
  "initial_retry_state =
     \<lparr>response = None, num_fails = 0, sleep_time = 0, attempts = 0, sleeps = []\<rparr>"

definition google_serper_api_results ::
  "(nat \<Rightarrow> outcome) \<Rightarrow> (nat \<Rightarrow> real) \<Rightarrow> int \<Rightarrow> ((py_error + json) \<times> retry_state) option" where
  "google_serper_api_results post uniform max_retries =
     (case retry_loop post uniform max_retries initial_retry_state of
        None \<Rightarrow> None
      | Some (Some e, st) \<Rightarrow> Some (Inl e, st)
      | Some (None, st) \<Rightarrow>
          Some ((case response st of
                   None \<Rightarrow> Inl ValueError
                 | Some r \<Rightarrow>
                     if \<not> response_ok r then Inl ValueError
                     else if 400 \<le> status_code r \<and> status_code r < 600 then Inl HTTPError
                     else (case body r of None \<Rightarrow> Inl JSONDecodeError | Some j \<Rightarrow> Inr j)),
                st))"

text \<open>
  \<open>run\<close>: the result or the exception, the number of requests posted and the delays slept.
  \<open>results.get\<close> in the parser needs the decoded body to be a dict. \<open>max_retries\<close> is
  3 unless the caller passes another bound through \<open>**kwargs\<close>.
\<close>

definition run ::
  "(json \<Rightarrow> string) \<Rightarrow> SerperAPI \<Rightarrow> (nat \<Rightarrow> outcome) \<Rightarrow> (nat \<Rightarrow> real) \<Rightarrow> int
     \<Rightarrow> ((py_error + string) \<times> nat \<times> real list) option" where
  "run str_of self post uniform max_retries =
     (if serper_api_key self = [] then Some (Inl AssertionError, 0, [])
      else
        (case google_serper_api_results post uniform max_retries of
           None \<Rightarrow> None
         | Some (Inl e, st) \<Rightarrow> Some (Inl e, attempts st, sleeps st)
         | Some (Inr j, st) \<Rightarrow>
             Some ((case j of
                      JObj results \<Rightarrow> parse_results str_of self results
                    | _ \<Rightarrow> Inl AttributeError),
                   attempts st, sleeps st)))"

section \<open>The consumer of the citation format (app.py)\<close>

text \<open>
  \<open>source_pattern = r'\[Source: (https?://[^\]]+)\]'\<close>, matched at the head of a string:
  the group and the text after the match. The run \<open>[^\]]+\<close> is greedy and must be followed
  by \<open>]\<close>, so it is the longest run without \<open>]\<close>, which must not be empty nor end the text.
\<close>

fun strip_prefix :: "string \<Rightarrow> string \<Rightarrow> string option" where
  "strip_prefix [] s = Some s"
| "strip_prefix (p # ps) [] = None"
| "strip_prefix (p # ps) (c # cs) = (if p = c then strip_prefix ps cs else None)"

definition match_url_tail :: "string \<Rightarrow> string \<Rightarrow> (string \<times> string) option" where
  "match_url_tail scheme r =
     (case strip_prefix ''://'' r of
        None \<Rightarrow> None
      | Some r' \<Rightarrow>
          (let url_run = takeWhile (\<lambda>c. c \<noteq> CHR '']'') r';
               rest = dropWhile (\<lambda>c. c \<noteq> CHR '']'') r'
           in if url_run = [] \<or> rest = [] then None
              else Some (scheme @ ''://'' @ url_run, tl rest)))"

definition match_source :: "string \<Rightarrow> (string \<times> string) option" where
  "match_source s =
     (case strip_prefix ''[Source: http'' s of
        None \<Rightarrow> None
      | Some r \<Rightarrow>
          (case (case r of
                   [] \<Rightarrow> None
                 | c # r' \<Rightarrow> if c = CHR ''s'' then match_url_tail ''https'' r' else None) of
             Some m \<Rightarrow> Some m
           | None \<Rightarrow> match_url_tail ''http'' r))"

lemma strip_prefix_length: "strip_prefix p s = Some r \<Longrightarrow> length r \<le> length s"
  by (induction p s rule: strip_prefix.induct) (auto split: if_splits)

lemma match_url_tail_length:
  assumes "match_url_tail sch r = Some (u, rest)"
  shows "length rest < length r"
proof -
  from assms obtain r' where r': "strip_prefix ''://'' r = Some r'"
    by (auto simp: match_url_tail_def split: option.splits)
  from assms r' have d: "dropWhile (\<lambda>c. c \<noteq> CHR '']'') r' \<noteq> []"
    and rest: "rest = tl (dropWhile (\<lambda>c. c \<noteq> CHR '']'') r')"
    by (auto simp: match_url_tail_def Let_def split: if_splits)
  have "length (dropWhile (\<lambda>c. c \<noteq> CHR '']'') r') \<le> length r'"
    by (rule length_dropWhile_le)
  with d rest have "length rest < length r'"
    by (cases "dropWhile (\<lambda>c. c \<noteq> CHR '']'') r'") auto
  with strip_prefix_length[OF r'] show ?thesis by simp
qed

lemma match_source_length: "match_source s = Some (u, rest) \<Longrightarrow> length rest < length s"
  unfolding match_source_def
  by (auto split: option.splits list.splits if_splits
           dest!: match_url_tail_length strip_prefix_length)

text \<open>\<open>re.findall(source_pattern, text)\<close>: the groups of the matches, left to right.\<close>

function source_findall :: "string \<Rightarrow> string list" where
  "source_findall [] = []"
| "source_findall (c # cs) =
     (case match_source (c # cs) of
        Some (u, rest) \<Rightarrow> u # source_findall rest
      | None \<Rightarrow> source_findall cs)"
  by pat_completeness auto
termination
  by (relation "measure length") (auto dest: match_source_length)





section \<open>The orchestrator\<close>

text \<open>
  Modelled from the spec: the function \<open>verify_atomic_claim\<close> of
  \<open>eval/fire/verify_atomic_claim.py\<close> is not among the sources, which only call it
  (\<open>app.py\<close>, \<open>run.py\<close>, \<open>test_gemini.py\<close>). The data model is the specification's
  section 3, the state machine its section 4.1. A batch holds the query and the text the
  search client returned for it.
\<close>

datatype answer = TRUE | FALSE

record verdict =
  answer :: answer
  full_response :: string

datatype decision = SEARCH string | FINALIZE answer string | UNPARSEABLE

record usage =
  input_tokens :: nat
  output_tokens :: nat

record search_batch =
  query :: string
  serialized_text :: string

datatype phase = S_INIT | S_AWAITING_DECISION | S_SEARCHING string | S_DONE | S_FAILED

datatype run_status = RUNNING | DONE | FAILED

datatype prompt_mode = Normal | Corrective | ForceFinal

record run_state =
  claim :: string
  batches :: "search_batch list"
  iteration_count :: nat
  cumulative_usage :: usage
  phase :: phase
  reprompted :: bool
  verdict :: "verdict option"

text \<open>Modelled from the spec: the status of a run, RUNNING until it is DONE or FAILED.\<close>

fun status :: "run_state \<Rightarrow> run_status" where
  "status st = (case phase st of S_DONE \<Rightarrow> DONE | S_FAILED \<Rightarrow> FAILED | _ \<Rightarrow> RUNNING)"

text \<open>Modelled from the spec: usage is summed over every call of the language model.\<close>

definition add_usage :: "usage \<Rightarrow> usage \<Rightarrow> usage" where
  "add_usage a b = \<lparr>input_tokens = input_tokens a + input_tokens b,
                    output_tokens = output_tokens a + output_tokens b\<rparr>"

text \<open>
  Modelled from the spec: the reasoning client. It answers the call with a given number
  (the iteration count), under a prompt mode, for the claim and the batches so far: with a
  decision and the usage of that call, or with an exception.
\<close>

type_synonym llm =
  "nat \<Rightarrow> prompt_mode \<Rightarrow> string \<Rightarrow> search_batch list \<Rightarrow> py_error + decision \<times> usage"

text \<open>
  The search client is the one of the sources. A search does what \<open>SerperAPI.run\<close> does:
  it does not return (\<open>None\<close>), it raises, or it returns the serialized text.
  \<open>serper_search\<close> is \<open>run\<close> on the backend that answers the requests of the search with a
  given number for a given query.
\<close>

type_synonym searcher = "nat \<Rightarrow> string \<Rightarrow> (py_error + string) option"

definition serper_search ::
  "(json \<Rightarrow> string) \<Rightarrow> SerperAPI \<Rightarrow> (nat \<Rightarrow> string \<Rightarrow> nat \<Rightarrow> outcome) \<Rightarrow> (nat \<Rightarrow> nat \<Rightarrow> real)
     \<Rightarrow> int \<Rightarrow> searcher" where
  "serper_search str_of self backend draws max_retries i q =
     map_option fst (run str_of self (backend i q) (draws i) max_retries)"

text \<open>
  Modelled from the spec: the state AWAITING\_DECISION. No call is made beyond the
  budget; the call that uses the budget up is issued with the instruction that forces a
  final answer, and a search directive or an unparseable reply to it fails the run. An
  unparseable reply is answered by one corrective prompt, a second one in a row fails
  the run, and so does an exception of the reasoning client.
\<close>

definition awaiting_decision :: "llm \<Rightarrow> nat \<Rightarrow> run_state \<Rightarrow> run_state" where
  "awaiting_decision decide budget st =
     (if budget \<le> iteration_count st then st\<lparr>phase := S_FAILED\<rparr>
      else
        (let forced = (budget = Suc (iteration_count st));
             mode = (if forced then ForceFinal
                     else if reprompted st then Corrective else Normal)
         in case decide (iteration_count st) mode (claim st) (batches st) of
              Inl e \<Rightarrow> st\<lparr>iteration_count := Suc (iteration_count st), phase := S_FAILED\<rparr>
            | Inr (d, u) \<Rightarrow>
                (let st1 = st\<lparr>iteration_count := Suc (iteration_count st),
                              cumulative_usage := add_usage (cumulative_usage st) u\<rparr>
                 in case d of
                      FINALIZE a txt \<Rightarrow>
                        st1\<lparr>phase := S_DONE,
                            verdict := Some \<lparr>answer = a, full_response = txt\<rparr>\<rparr>
                    | SEARCH q \<Rightarrow>
                        if forced then st1\<lparr>phase := S_FAILED\<rparr>
                        else st1\<lparr>phase := S_SEARCHING q, reprompted := False\<rparr>
                    | UNPARSEABLE \<Rightarrow>
                        if forced \<or> reprompted st then st1\<lparr>phase := S_FAILED\<rparr>
                        else st1\<lparr>reprompted := True\<rparr>)))"

text \<open>
  Modelled from the spec: the state SEARCHING. The orchestrator waits for the search; a
  batch is appended when it returns, and an exception of the search client fails the run
  and leaves the batches and the usage as they are.
\<close>

definition searching :: "searcher \<Rightarrow> string \<Rightarrow> run_state \<Rightarrow> run_state option" where
  "searching search q st =
     (case search (length (batches st)) q of
        None \<Rightarrow> None
      | Some (Inl e) \<Rightarrow> Some (st\<lparr>phase := S_FAILED\<rparr>)
      | Some (Inr text) \<Rightarrow>
          Some (st\<lparr>batches := batches st @ [\<lparr>query = q, serialized_text = text\<rparr>],
                   phase := S_AWAITING_DECISION\<rparr>))"

text \<open>Modelled from the spec: one transition of the state machine.\<close>

definition step :: "llm \<Rightarrow> searcher \<Rightarrow> nat \<Rightarrow> run_state \<Rightarrow> run_state option" where
  "step decide search budget st =
     (case phase st of
        S_INIT \<Rightarrow> Some (st\<lparr>phase := S_AWAITING_DECISION\<rparr>)
      | S_AWAITING_DECISION \<Rightarrow> Some (awaiting_decision decide budget st)
      | S_SEARCHING q \<Rightarrow> searching search q st
      | S_DONE \<Rightarrow> Some st
      | S_FAILED \<Rightarrow> Some st)"

text \<open>Modelled from the spec: DONE and FAILED end a run.\<close>

definition terminal :: "run_state \<Rightarrow> bool" where
  "terminal st = (phase st = S_DONE \<or> phase st = S_FAILED)"

text \<open>
  Modelled from the spec: the loop of the orchestrator. It does not return when a search
  does not.
\<close>

partial_function (option) orchestrate ::
  "llm \<Rightarrow> searcher \<Rightarrow> nat \<Rightarrow> run_state \<Rightarrow> run_state option" where
  "orchestrate decide search budget st =
     (if terminal st then Some st
      else (case step decide search budget st of
              None \<Rightarrow> None
            | Some st' \<Rightarrow> orchestrate decide search budget st'))"

text \<open>Modelled from the spec: the state INIT holds the claim alone.\<close>

definition init_state :: "string \<Rightarrow> run_state" where
  "init_state c = \<lparr>claim = c, batches = [], iteration_count = 0,
     cumulative_usage = \<lparr>input_tokens = 0, output_tokens = 0\<rparr>,
     phase = S_INIT, reprompted = False, verdict = None\<rparr>"

text \<open>
  Modelled from the spec: the public contract
  \<open>verify(claim, model_config) -> (Verdict | null, ordered Search Batches, Usage)\<close>.
\<close>

definition verify ::
  "llm \<Rightarrow> searcher \<Rightarrow> nat \<Rightarrow> string \<Rightarrow> (verdict option \<times> search_batch list \<times> usage) option" where
  "verify decide search budget c =
     (case orchestrate decide search budget (init_state c) of
        None \<Rightarrow> None
      | Some st \<Rightarrow>
          Some (if phase st = S_DONE then verdict st else None, batches st, cumulative_usage st))"

text \<open>
  The order on usage, the number of transitions a run can still take, the invariant of a
  run, and the states a run from INIT passes through.
\<close>

definition usage_le :: "usage \<Rightarrow> usage \<Rightarrow> bool" where
  "usage_le a b = (input_tokens a \<le> input_tokens b \<and> output_tokens a \<le> output_tokens b)"

fun remaining :: "nat \<Rightarrow> run_state \<Rightarrow> nat" where
  "remaining budget st =
     (case phase st of
        S_INIT \<Rightarrow> 2 * (budget - iteration_count st) + 2
      | S_AWAITING_DECISION \<Rightarrow> 2 * (budget - iteration_count st) + 1
      | S_SEARCHING q \<Rightarrow> 2 * (budget - iteration_count st) + 2
      | S_DONE \<Rightarrow> 0
      | S_FAILED \<Rightarrow> 0)"

definition run_inv :: "run_state \<Rightarrow> bool" where
  "run_inv st = ((phase st = S_DONE) = (verdict st \<noteq> None))"

inductive reach :: "llm \<Rightarrow> searcher \<Rightarrow> nat \<Rightarrow> string \<Rightarrow> run_state \<Rightarrow> bool"
  for decide search budget c where
  reach_init: "reach decide search budget c (init_state c)"
| reach_step: "reach decide search budget c st \<Longrightarrow> \<not> terminal st \<Longrightarrow>
     step decide search budget st = Some st' \<Longrightarrow> reach decide search budget c st'"

section \<open>The specification's vocabulary\<close>

text \<open>
  An Evidence Item as the specification's data model has it: snippet text, an optional
  source URL and a title. \<open>evidence_of\<close> reads one off an element of the parser's list
  whose fields are strings; an empty link is no source.
\<close>

record evidence_item =
  ev_snippet :: string
  ev_source :: "string option"
  ev_title :: string

fun the_str :: "json \<Rightarrow> string" where
  "the_str (JStr s) = s"
| "the_str _ = []"

definition evidence_of :: "item \<Rightarrow> evidence_item" where
  "evidence_of it =
     \<lparr>ev_snippet = the_str (snippet it),
      ev_source = (if the_str (link it) = [] then None else Some (the_str (link it))),
      ev_title = the_str (title it)\<rparr>"

text \<open>
  The serialization in the specification's words: the snippet, with \<open>" [Source: <url>]"\<close>
  right after it when the item carries a link, and the items joined by one space.
\<close>

definition cited :: "evidence_item \<Rightarrow> string" where
  "cited e =
     ev_snippet e @ (case ev_source e of None \<Rightarrow> [] | Some url \<Rightarrow> '' [Source: '' @ url @ '']'')"

fun spec_serialize :: "evidence_item list \<Rightarrow> string" where
  "spec_serialize [] = []"
| "spec_serialize [e] = cited e"
| "spec_serialize (e # e' # es) = cited e @ '' '' @ spec_serialize (e' # es)"

text \<open>
  The ranked results the loop of \<open>_parse_snippets_with_links\<close> runs over, and the number
  of attributes one of them lists.
\<close>

definition consulted_results :: "SerperAPI \<Rightarrow> pydict \<Rightarrow> json list" where
  "consulted_results self results =
     (case map_of results (result_key_for_type (search_type self)) of
        None \<Rightarrow> []
      | Some v \<Rightarrow> (case sliced_results (top_k self) v of Inl e \<Rightarrow> [] | Inr rs \<Rightarrow> rs))"

definition attribute_count :: "json \<Rightarrow> nat" where
  "attribute_count result =
     (case py_get result ''attributes'' (JObj []) of
        Inl e \<Rightarrow> 0
      | Inr attrs \<Rightarrow> (case py_items attrs of Inl e \<Rightarrow> 0 | Inr avs \<Rightarrow> length avs))"

text \<open>
  The delays of the retry policy in the specification's words: a first delay, then each
  delay twice the one before, up to the ceiling of 10 seconds.
\<close>

fun backoff_delays :: "real \<Rightarrow> nat \<Rightarrow> real list" where
  "backoff_delays d 0 = []"
| "backoff_delays d (Suc n) = d # backoff_delays (min (d * 2) 10) n"

text \<open>
  A text with source markers: prose, then for each pair a marker for the URL and the prose
  that follows it. A URL is valid when it starts with \<open>http://\<close> or \<open>https://\<close>, goes on
  with at least one character and contains no \<open>]\<close>.
\<close>

definition marker :: "string \<Rightarrow> string" where
  "marker url = ''[Source: '' @ url @ '']''"


definition valid_url :: "string \<Rightarrow> bool" where
  "valid_url url =
     (CHR '']'' \<notin> set url \<and>
      (case strip_prefix ''https://'' url of
         Some r \<Rightarrow> r \<noteq> []
       | None \<Rightarrow> (case strip_prefix ''http://'' url of Some r \<Rightarrow> r \<noteq> [] | None \<Rightarrow> False)))"


section \<open>Example inputs\<close>

text \<open>A client with the defaults of \<open>SerperAPI.__init__\<close>.\<close>

definition default_client :: SerperAPI where
  "default_client =
     \<lparr>serper_api_key = ''key'', gl = ''us'', hl = ''en'', top_k = 1, tbs = None,
      search_type = Search\<rparr>"

definition scenario_c_answer_box :: json where
  "scenario_c_answer_box = JObj [(''answer'', JStr ''Paris''), (''link'', JStr ''https://x'')]"

definition two_item_response :: pydict where
  "two_item_response =
     [(''answerBox'', JObj [(''answer'', JStr ''Paris''), (''link'', JStr ''https://x'')]),
      (''organic'', JList [JObj [(''snippet'', JStr ''Capital of France'')]])]"

definition snippet_and_attribute_response :: pydict where
  "snippet_and_attribute_response =
     [(''organic'', JList [JObj [(''snippet'', JStr ''a''),
                                 (''attributes'', JObj [(''x'', JStr ''y'')])]])]"

definition numeric_answer_response :: pydict where
  "numeric_answer_response =
     [(''answerBox'', JObj [(''answer'', JInt 42), (''snippet'', JStr ''forty-two'')]),
      (''organic'', JList [JObj [(''snippet'', JStr ''a'')]])]"

definition multiline_answer_box_response :: pydict where
  "multiline_answer_box_response =
     [(''answerBox'', JObj [(''answer'', JStr ''Paris''),
                            (''snippet'', JStr [CHR ''a'', CHR 0x0A, CHR ''b'']),
                            (''link'', JStr ''https://x'')])]"

definition same_text_answer_box_response :: pydict where
  "same_text_answer_box_response =
     [(''answerBox'', JObj [(''answer'', JStr ''Paris''), (''snippet'', JStr ''Paris'')])]"




text \<open>Backends: one that answers every request with HTTP 500, one that always times out,
  one that times out once and then raises an assertion error.\<close>

definition always_http_500 :: "nat \<Rightarrow> outcome" where
  "always_http_500 i = Responds \<lparr>status_code = 500, body = None\<rparr>"

definition always_timeout :: "nat \<Rightarrow> outcome" where
  "always_timeout i = Raises Timeout"

definition assertion_on_second :: "nat \<Rightarrow> outcome" where
  "assertion_on_second i = (if i = 0 then Raises Timeout else Raises AssertionError)"


text \<open>A reasoning client that always asks for the same search.\<close>

definition stub_usage :: usage where
  "stub_usage = \<lparr>input_tokens = 10, output_tokens = 2\<rparr>"

definition always_search :: llm where
  "always_search i mode c bs = Inr (SEARCH ''Eiffel Tower location'', stub_usage)"

section \<open>Properties of the parser\<close>

subsection \<open>Serialization\<close>

lemma format_item_str:
  "is_str (snippet it) \<Longrightarrow> is_str (link it) \<Longrightarrow> format_item str_of it = JStr (cited (evidence_of it))"
  by (cases "snippet it"; cases "link it") (auto simp: format_item_def cited_def evidence_of_def)

lemma py_join_strs: "py_join sep (map JStr (s # ss)) = Inr (s @ concat (map (\<lambda>t. sep @ t) ss))"
  by (induction ss arbitrary: s) auto

lemma serialize_items_spec:
  "\<forall>it \<in> set its. is_str (snippet it) \<and> is_str (link it) \<Longrightarrow>
     serialize_items str_of its = Inr (spec_serialize (map evidence_of its))"
proof (induction its rule: induct_list012)
  case 1
  then show ?case by (simp add: serialize_items_def)
next
  case (2 x)
  then show ?case by (simp add: serialize_items_def format_item_str)
next
  case (3 x y zs)
  then have "serialize_items str_of (y # zs) = Inr (spec_serialize (map evidence_of (y # zs)))"
    by simp
  with 3 show ?case by (simp add: serialize_items_def format_item_str)
qed

text \<open>
  Claim C3. For a batch whose items have text for snippet and link, the serialized text
  is the snippets in extraction order, each followed at once by \<open>" [Source: <url>]"\<close>
  when the item carries a link, the items joined by single spaces. A response whose
  answer box is \<open>{answer: "Paris", link: "https://x"}\<close>, with no knowledge panel and no
  ranked results, gives the one item (Paris, https://x) and the text
  \<open>Paris [Source: https://x]\<close>.
\<close>

theorem serialization_format:
  "(parse_snippets_with_links str_of self results = Inr its \<and>
    (\<forall>it \<in> set its. is_str (snippet it) \<and> is_str (link it))
      \<longrightarrow> parse_results str_of self results = Inr (spec_serialize (map evidence_of its)))
   \<and> (map_of results ''answerBox'' = Some scenario_c_answer_box \<and>
      map_of results ''knowledgeGraph'' = None \<and>
      ranked_items str_of self results = Inr []
      \<longrightarrow> parse_snippets_with_links str_of self results
            = Inr [\<lparr>snippet = JStr ''Paris'', link = JStr ''https://x'', title = JStr ''Answer Box''\<rparr>]
        \<and> parse_results str_of self results = Inr ''Paris [Source: https://x]'')"
proof (intro conjI impI)
  assume "parse_snippets_with_links str_of self results = Inr its \<and>
    (\<forall>it \<in> set its. is_str (snippet it) \<and> is_str (link it))"
  then show "parse_results str_of self results = Inr (spec_serialize (map evidence_of its))"
    by (simp add: parse_results_def serialize_items_spec)
next
  assume a: "map_of results ''answerBox'' = Some scenario_c_answer_box \<and>
      map_of results ''knowledgeGraph'' = None \<and>
      ranked_items str_of self results = Inr []"
  then have ab: "answer_box_items results
      = Inr [\<lparr>snippet = JStr ''Paris'', link = JStr ''https://x'', title = JStr ''Answer Box''\<rparr>]"
    by (simp add: answer_box_items_def dict_get_def scenario_c_answer_box_def)
  from a have kg: "knowledge_graph_items str_of results = Inr []"
    by (simp add: knowledge_graph_items_def dict_get_def)
  from a ab kg show p: "parse_snippets_with_links str_of self results
      = Inr [\<lparr>snippet = JStr ''Paris'', link = JStr ''https://x'', title = JStr ''Answer Box''\<rparr>]"
    by (simp add: parse_snippets_with_links_def extract_items_def)
  show "parse_results str_of self results = Inr ''Paris [Source: https://x]''"
    by (simp add: parse_results_def p serialize_items_def format_item_def)
qed

theorem serialization_format_witness:
  "parse_results (\<lambda>v. []) default_client two_item_response
     = Inr ''Paris [Source: https://x] Capital of France''
   \<and> parse_results (\<lambda>v. []) default_client [(''answerBox'', scenario_c_answer_box)]
     = Inr ''Paris [Source: https://x]''"
proof -
  let ?its = "[\<lparr>snippet = JStr ''Paris'', link = JStr ''https://x'', title = JStr ''Answer Box''\<rparr>,
               \<lparr>snippet = JStr ''Capital of France'', link = JStr [], title = JStr ''Search Result''\<rparr>]"
  have p: "parse_snippets_with_links (\<lambda>v. []) default_client two_item_response = Inr ?its"
    by (simp add: parse_snippets_with_links_def extract_items_def answer_box_items_def
        knowledge_graph_items_def ranked_items_def result_items_def dict_get_def
        two_item_response_def default_client_def py_slice_to_def)
  have r: "ranked_items (\<lambda>v. []) default_client [(''answerBox'', scenario_c_answer_box)] = Inr []"
    by (simp add: ranked_items_def default_client_def)
  from serialization_format[where str_of = "\<lambda>v. []" and self = default_client
      and results = two_item_response and its = ?its] p
  have "parse_results (\<lambda>v. []) default_client two_item_response
      = Inr (spec_serialize (map evidence_of ?its))"
    by simp
  moreover from serialization_format[where str_of = "\<lambda>v. []" and self = default_client
      and results = "[(''answerBox'', scenario_c_answer_box)]" and its = "[]"] r
  have "parse_results (\<lambda>v. []) default_client [(''answerBox'', scenario_c_answer_box)]
     = Inr ''Paris [Source: https://x]''"
    by simp
  ultimately show ?thesis
    by (simp add: evidence_of_def cited_def)
qed

subsection \<open>The placeholder\<close>

text \<open>
  Claim C6. When the three blocks produce no item at all, the parser returns exactly one
  item, with the fixed snippet \<open>NO_RESULT_MSG\<close> and an empty link, and the serialized text
  is that snippet alone, in which a scan for source markers finds nothing.
\<close>

theorem no_items_placeholder:
  "extract_items str_of self results = Inr [] \<Longrightarrow>
     parse_snippets_with_links str_of self results
       = Inr [\<lparr>snippet = JStr NO_RESULT_MSG, link = JStr [], title = JStr ''No Result''\<rparr>]
     \<and> parse_results str_of self results = Inr NO_RESULT_MSG
     \<and> source_findall NO_RESULT_MSG = []"
proof -
  assume a: "extract_items str_of self results = Inr []"
  have "source_findall NO_RESULT_MSG = []"
    unfolding NO_RESULT_MSG_def by code_simp
  with a show ?thesis
    by (simp add: parse_results_def parse_snippets_with_links_def serialize_items_def
        format_item_def no_result_item_def)
qed

theorem no_items_placeholder_witness:
  "extract_items (\<lambda>v. []) default_client [] = Inr []
   \<and> parse_results (\<lambda>v. []) default_client [] = Inr ''No good Google Search result was found''"
proof -
  have e: "extract_items (\<lambda>v. []) default_client [] = Inr []"
    by (simp add: extract_items_def answer_box_items_def knowledge_graph_items_def
        ranked_items_def dict_get_def)
  from no_items_placeholder[OF e] e show ?thesis
    by (simp add: NO_RESULT_MSG_def)
qed

subsection \<open>The answer box\<close>

text \<open>
  Claim C5, as the code has it. For a response whose answer box is a non-empty object,
  the answer yields one item titled "Answer Box" when it is a non-empty string, and the
  snippet yields a further "Answer Box" item when it is a non-empty string, whether or not
  its text is that of the answer; every newline of the snippet is replaced by one space.
\<close>

theorem answer_box_items_spec:
  "map_of results ''answerBox'' = Some (JObj ab) \<Longrightarrow> ab \<noteq> [] \<Longrightarrow>
   answer_box_items results =
     Inr ((case map_of ab ''answer'' of
             Some (JStr a) \<Rightarrow>
               if a = [] then []
               else [\<lparr>snippet = JStr a, link = dict_get ab ''link'' (JStr []),
                      title = JStr ''Answer Box''\<rparr>]
           | _ \<Rightarrow> [])
        @ (case map_of ab ''snippet'' of
             Some (JStr s) \<Rightarrow>
               if s = [] then []
               else [\<lparr>snippet = JStr (replace_newlines s), link = dict_get ab ''link'' (JStr []),
                      title = JStr ''Answer Box''\<rparr>]
           | _ \<Rightarrow> []))
   \<and> (\<forall>s. CHR 0x0A \<notin> set (replace_newlines s) \<and> length (replace_newlines s) = length s)"
  by (auto simp: answer_box_items_def dict_get_def replace_newlines_def
      split: option.splits json.splits)

theorem answer_box_items_spec_witness:
  "answer_box_items multiline_answer_box_response
     = Inr [\<lparr>snippet = JStr ''Paris'', link = JStr ''https://x'', title = JStr ''Answer Box''\<rparr>,
            \<lparr>snippet = JStr ''a b'', link = JStr ''https://x'', title = JStr ''Answer Box''\<rparr>]"
  using answer_box_items_spec[where results = multiline_answer_box_response
      and ab = "[(''answer'', JStr ''Paris''), (''snippet'', JStr [CHR ''a'', CHR 0x0A, CHR ''b'']),
                            (''link'', JStr ''https://x'')]"]
  by (simp add: multiline_answer_box_response_def dict_get_def replace_newlines_def)

text \<open>
  The claim as stated asks for the second item only when the snippet differs from the
  answer. The code does not compare them: equal texts give two items.
\<close>

theorem answer_box_same_text_counterexample:
  "parse_snippets_with_links (\<lambda>v. []) default_client same_text_answer_box_response
   = Inr [\<lparr>snippet = JStr ''Paris'', link = JStr [], title = JStr ''Answer Box''\<rparr>,
          \<lparr>snippet = JStr ''Paris'', link = JStr [], title = JStr ''Answer Box''\<rparr>]"
  by (simp add: parse_snippets_with_links_def extract_items_def answer_box_items_def
      knowledge_graph_items_def ranked_items_def dict_get_def default_client_def
      replace_newlines_def same_text_answer_box_response_def)

lemma answer_box_items_cong:
  "map_of r1 ''answerBox'' = map_of r2 ''answerBox'' \<Longrightarrow> answer_box_items r1 = answer_box_items r2"
  by (simp add: answer_box_items_def dict_get_def)

lemma knowledge_graph_items_cong:
  "map_of r1 ''knowledgeGraph'' = map_of r2 ''knowledgeGraph'' \<Longrightarrow>
     knowledge_graph_items str_of r1 = knowledge_graph_items str_of r2"
  by (simp add: knowledge_graph_items_def dict_get_def)

lemma ranked_items_cong:
  "map_of r1 (result_key_for_type (search_type self)) = map_of r2 (result_key_for_type (search_type self))
     \<Longrightarrow> ranked_items str_of self r1 = ranked_items str_of self r2"
  by (simp add: ranked_items_def)

lemma result_key_not_answer_box: "result_key_for_type t \<noteq> ''answerBox''"
  by (cases t) simp_all

lemma parse_update_answer_box:
  assumes "answer_box_items (AList.update ''answerBox'' v results) = answer_box_items results"
  shows "parse_snippets_with_links str_of self (AList.update ''answerBox'' v results)
       = parse_snippets_with_links str_of self results"
proof -
  have "knowledge_graph_items str_of (AList.update ''answerBox'' v results)
      = knowledge_graph_items str_of results"
    by (rule knowledge_graph_items_cong) (simp add: update_conv')
  moreover have "ranked_items str_of self (AList.update ''answerBox'' v results)
      = ranked_items str_of self results"
    by (rule ranked_items_cong) (simp add: update_conv' result_key_not_answer_box)
  ultimately show ?thesis
    using assms
    by (simp add: parse_snippets_with_links_def extract_items_def cong: sum.case_cong)
qed

lemma answer_box_drop_field:
  assumes ab: "map_of results ''answerBox'' = Some (JObj ab)"
    and v: "map_of ab field = Some v" "\<not> is_str v"
    and f: "field = ''answer'' \<or> field = ''snippet''"
  shows "answer_box_items (AList.update ''answerBox'' (JObj (AList.delete field ab)) results)
       = answer_box_items results"
proof -
  from v have ne: "ab \<noteq> []" by auto
  show ?thesis
  proof (cases "AList.delete field ab = []")
    case True
    then have "map_of (AList.delete field ab) = Map.empty" by simp
    then have "\<And>k. k \<noteq> field \<Longrightarrow> map_of ab k = None"
      by (metis delete_conv' fun_upd_apply)
    with f v ab ne True show ?thesis
      by (cases v) (auto simp: answer_box_items_def dict_get_def update_conv')
  next
    case False
    with f v ab ne show ?thesis
      by (cases v) (auto simp: answer_box_items_def dict_get_def update_conv' delete_conv')
  qed
qed

text \<open>
  Claim C10. When the answer box is an object whose \<open>answer\<close> or \<open>snippet\<close> is present
  but not a string, the answer-box block raises nothing and yields at most the one item
  of the other field, and the whole parse is the parse of the response with that field
  deleted: the knowledge panel and the ranked results are processed as they would be
  without it.
\<close>

theorem answer_box_non_string_skipped:
  assumes ab: "map_of results ''answerBox'' = Some (JObj ab)"
    and v: "map_of ab field = Some v" "\<not> is_str v"
    and f: "field = ''answer'' \<or> field = ''snippet''"
  shows "(\<exists>xs. answer_box_items results = Inr xs \<and> length xs \<le> 1)
    \<and> parse_snippets_with_links str_of self results
       = parse_snippets_with_links str_of self
           (AList.update ''answerBox'' (JObj (AList.delete field ab)) results)"
proof
  from v have ne: "ab \<noteq> []" by auto
  from f v ab ne show "\<exists>xs. answer_box_items results = Inr xs \<and> length xs \<le> 1"
    by (cases v) (auto simp: answer_box_items_def dict_get_def split: json.splits option.splits)
  from parse_update_answer_box[OF answer_box_drop_field[OF ab v f]]
  show "parse_snippets_with_links str_of self results
       = parse_snippets_with_links str_of self
           (AList.update ''answerBox'' (JObj (AList.delete field ab)) results)"
    by simp
qed

lemma numeric_answer_parse:
  "parse_snippets_with_links (\<lambda>v. []) default_client
     [(''answerBox'', JObj [(''snippet'', JStr ''forty-two'')]),
      (''organic'', JList [JObj [(''snippet'', JStr ''a'')]])]
   = Inr [\<lparr>snippet = JStr ''forty-two'', link = JStr [], title = JStr ''Answer Box''\<rparr>,
          \<lparr>snippet = JStr ''a'', link = JStr [], title = JStr ''Search Result''\<rparr>]"
  by (simp add: parse_snippets_with_links_def extract_items_def answer_box_items_def
      knowledge_graph_items_def ranked_items_def result_items_def dict_get_def default_client_def
      replace_newlines_def py_slice_to_def)

theorem answer_box_non_string_skipped_witness:
  "parse_snippets_with_links (\<lambda>v. []) default_client numeric_answer_response
   = Inr [\<lparr>snippet = JStr ''forty-two'', link = JStr [], title = JStr ''Answer Box''\<rparr>,
          \<lparr>snippet = JStr ''a'', link = JStr [], title = JStr ''Search Result''\<rparr>]"
proof -
  have "parse_snippets_with_links (\<lambda>v. []) default_client numeric_answer_response
     = parse_snippets_with_links (\<lambda>v. []) default_client
           (AList.update ''answerBox''
              (JObj (AList.delete ''answer'' [(''answer'', JInt 42), (''snippet'', JStr ''forty-two'')]))
              numeric_answer_response)"
    using answer_box_non_string_skipped[where results = numeric_answer_response
        and ab = "[(''answer'', JInt 42), (''snippet'', JStr ''forty-two'')]"
        and field = "''answer''" and v = "JInt 42" and str_of = "\<lambda>v. []" and self = default_client]
    by (simp add: numeric_answer_response_def)
  also have "\<dots> = parse_snippets_with_links (\<lambda>v. []) default_client
     [(''answerBox'', JObj [(''snippet'', JStr ''forty-two'')]),
      (''organic'', JList [JObj [(''snippet'', JStr ''a'')]])]"
    by (simp add: numeric_answer_response_def AList.delete_eq)
  finally show ?thesis by (simp only: numeric_answer_parse)
qed

subsection \<open>The ranked results\<close>

lemma py_slice_to_length: "0 \<le> n \<Longrightarrow> length (py_slice_to n xs) \<le> nat n"
  by (simp add: py_slice_to_def)

lemma sliced_results_length:
  "0 \<le> n \<Longrightarrow> sliced_results n v = Inr rs \<Longrightarrow> length rs \<le> nat n"
  by (cases v) (auto simp: py_slice_to_length)

lemma result_items_length:
  "result_items str_of r = Inr xs \<Longrightarrow> length xs \<le> 1 + attribute_count r"
  by (auto simp: result_items_def attribute_count_def split: sum.splits json.splits option.splits)

lemma ranked_loop_length:
  "ranked_loop str_of rs = Inr zs \<Longrightarrow> length zs \<le> (\<Sum>r\<leftarrow>rs. 1 + attribute_count r)"
proof (induction rs arbitrary: zs)
  case Nil
  then show ?case by simp
next
  case (Cons r rs)
  from Cons.prems obtain xs ys where
    xs: "result_items str_of r = Inr xs" and ys: "ranked_loop str_of rs = Inr ys" and zs: "zs = xs @ ys"
    by (auto split: sum.splits)
  from result_items_length[OF xs] Cons.IH[OF ys] zs show ?case by simp
qed

lemma sum_list_all_one:
  "\<forall>x \<in> set xs. f x = (0::nat) \<Longrightarrow> (\<Sum>x\<leftarrow>xs. 1 + f x) = length xs"
  by (induction xs) auto

lemma snippet_and_attribute_ranked:
  "ranked_items (\<lambda>v. []) default_client snippet_and_attribute_response
     = Inr [\<lparr>snippet = JStr ''a'', link = JStr [], title = JStr ''Search Result''\<rparr>,
            \<lparr>snippet = JStr ''x: y.'', link = JStr [], title = JStr ''Search Result''\<rparr>]"
  by (simp add: ranked_items_def result_items_def dict_get_def default_client_def
      py_slice_to_def snippet_and_attribute_response_def)

text \<open>
  Claim C2, as the code has it. For \<open>top_k \<ge> 0\<close> the loop consults at most \<open>top_k\<close>
  ranked results, the first ones, and each gives at most one snippet item and one item
  for each attribute it lists; so the ranked results give at most \<open>top_k\<close> items when
  none of those consulted lists attributes. The items of the answer box and of the
  knowledge panel come before them and are not counted.
\<close>

theorem ranked_items_bound:
  assumes k: "0 \<le> top_k self"
    and zs: "ranked_items str_of self results = Inr zs"
  shows "length (consulted_results self results) \<le> nat (top_k self)
    \<and> ranked_loop str_of (consulted_results self results) = Inr zs
    \<and> length zs \<le> (\<Sum>r\<leftarrow>consulted_results self results. 1 + attribute_count r)
    \<and> ((\<forall>r \<in> set (consulted_results self results). attribute_count r = 0)
         \<longrightarrow> length zs \<le> nat (top_k self))
    \<and> (\<forall>its. extract_items str_of self results = Inr its \<longrightarrow>
          (\<exists>xs ys. answer_box_items results = Inr xs \<and> knowledge_graph_items str_of results = Inr ys
              \<and> its = xs @ ys @ zs))"
proof -
  let ?rs = "consulted_results self results"
  have len: "length ?rs \<le> nat (top_k self)"
    using k by (auto simp: consulted_results_def sliced_results_length split: option.splits sum.splits)
  have loop: "ranked_loop str_of ?rs = Inr zs"
    using zs by (auto simp: consulted_results_def ranked_items_def split: option.splits sum.splits)
  from ranked_loop_length[OF loop]
  have bound: "length zs \<le> (\<Sum>r\<leftarrow>?rs. 1 + attribute_count r)" .
  have flat: "length zs \<le> nat (top_k self)" if "\<forall>r \<in> set ?rs. attribute_count r = 0"
  proof -
    from that have "(\<Sum>r\<leftarrow>?rs. 1 + attribute_count r) = length ?rs"
      by (rule sum_list_all_one)
    with bound len show ?thesis by simp
  qed
  have parts: "\<exists>xs ys. answer_box_items results = Inr xs \<and> knowledge_graph_items str_of results = Inr ys
              \<and> its = xs @ ys @ zs" if "extract_items str_of self results = Inr its" for its
    using that zs by (auto simp: extract_items_def split: sum.splits)
  from len loop bound flat parts show ?thesis by blast
qed

theorem ranked_items_bound_witness:
  "(0::int) \<le> 1 \<and> length (consulted_results default_client snippet_and_attribute_response) \<le> 1
   \<and> (\<Sum>r\<leftarrow>consulted_results default_client snippet_and_attribute_response.
         1 + attribute_count r) = 2"
proof -
  have k: "0 \<le> top_k default_client" by (simp add: default_client_def)
  have c: "consulted_results default_client snippet_and_attribute_response =
     [JObj [(''snippet'', JStr ''a''), (''attributes'', JObj [(''x'', JStr ''y'')])]]"
    by (simp add: consulted_results_def default_client_def py_slice_to_def
        snippet_and_attribute_response_def)
  from ranked_items_bound[OF k snippet_and_attribute_ranked]
  have "length (consulted_results default_client snippet_and_attribute_response)
      \<le> nat (top_k default_client)" by blast
  moreover have "nat (top_k default_client) = 1" by (simp add: default_client_def)
  moreover have "(\<Sum>r\<leftarrow>consulted_results default_client snippet_and_attribute_response.
      1 + attribute_count r) = 2"
    unfolding c by (simp add: attribute_count_def dict_get_def)
  ultimately show ?thesis by simp
qed

text \<open>
  The claim as stated bounds the number of items by \<open>top_k\<close>. One ranked result with a
  snippet and one attribute gives two items under \<open>top_k = 1\<close>.
\<close>

theorem ranked_items_exceed_top_k_counterexample:
  "top_k default_client = 1 \<and>
   ranked_items (\<lambda>v. []) default_client snippet_and_attribute_response
     = Inr [\<lparr>snippet = JStr ''a'', link = JStr [], title = JStr ''Search Result''\<rparr>,
            \<lparr>snippet = JStr ''x: y.'', link = JStr [], title = JStr ''Search Result''\<rparr>]"
  by (simp add: snippet_and_attribute_ranked) (simp add: default_client_def)

section \<open>Properties of the citation format\<close>

lemma strip_prefix_append: "strip_prefix p (p @ s) = Some s"
  by (induction p) auto

lemma strip_prefix_Some: "strip_prefix p s = Some r \<Longrightarrow> s = p @ r"
  by (induction p s rule: strip_prefix.induct) (auto split: if_splits)

lemma match_url_tail_run:
  assumes "CHR '']'' \<notin> set u" "u \<noteq> []"
  shows "match_url_tail scheme (''://'' @ u @ CHR '']'' # t) = Some (scheme @ ''://'' @ u, t)"
proof -
  have "strip_prefix ''://'' (''://'' @ u @ CHR '']'' # t) = Some (u @ CHR '']'' # t)"
    by (rule strip_prefix_append)
  moreover from assms have "takeWhile (\<lambda>c. c \<noteq> CHR '']'') (u @ CHR '']'' # t) = u"
    by (subst takeWhile_append2) auto
  moreover from assms have "dropWhile (\<lambda>c. c \<noteq> CHR '']'') (u @ CHR '']'' # t) = CHR '']'' # t"
    by (subst dropWhile_append2) auto
  ultimately show ?thesis using assms by (simp add: match_url_tail_def Let_def del: strip_prefix.simps)
qed

lemma match_source_marker:
  assumes "valid_url url"
  shows "match_source (marker url @ t) = Some (url, t)"
proof (cases "strip_prefix ''https://'' url")
  case (Some r)
  with assms have r: "r \<noteq> []" "CHR '']'' \<notin> set r" and url: "url = ''https://'' @ r"
    by (auto simp: valid_url_def dest: strip_prefix_Some)
  from match_url_tail_run[OF r(2) r(1), of "''https''" t]
  show ?thesis by (simp add: match_source_def marker_def url)
next
  case None
  with assms obtain r where s: "strip_prefix ''http://'' url = Some r" and r: "r \<noteq> []"
    by (auto simp: valid_url_def split: option.splits)
  from s have url: "url = ''http://'' @ r" by (rule strip_prefix_Some)
  from assms url have nb: "CHR '']'' \<notin> set r" by (simp add: valid_url_def)
  from None url have ns: "match_url_tail ''https'' (tl (''://'' @ r @ CHR '']'' # t)) = None"
    by (simp add: match_url_tail_def)
  from match_url_tail_run[OF nb r, of "''http''" t] ns
  show ?thesis by (simp add: match_source_def marker_def url)
qed

lemma match_source_no_bracket: "c \<noteq> CHR ''['' \<Longrightarrow> match_source (c # cs) = None"
  by (simp add: match_source_def)

lemma findall_prose: "CHR ''['' \<notin> set p \<Longrightarrow> source_findall (p @ t) = source_findall t"
  by (induction p) (auto simp: match_source_no_bracket)


lemma findall_marker: "valid_url url \<Longrightarrow> source_findall (marker url @ t) = url # source_findall t"
proof -
  assume v: "valid_url url"
  obtain c cs where m: "marker url @ t = c # cs" by (cases "marker url @ t") (auto simp: marker_def)
  from match_source_marker[OF v, of t] show ?thesis unfolding m by simp
qed







text \<open>
  The same for the serializer's own output: from the serialization of items whose snippets
  hold no \<open>[\<close> and whose sources are valid URLs, the scan recovers the sources of the
  items that carry one, in extraction order.
\<close>

lemma findall_cited:
  assumes "CHR ''['' \<notin> set (ev_snippet e)" "\<forall>u. ev_source e = Some u \<longrightarrow> valid_url u"
    and "t = [] \<or> hd t = CHR '' ''"
  shows "source_findall (cited e @ t)
       = (case ev_source e of None \<Rightarrow> [] | Some u \<Rightarrow> [u]) @ source_findall t"
proof (cases "ev_source e")
  case None
  with assms(1) show ?thesis by (simp add: cited_def findall_prose)
next
  case (Some u)
  with assms(2) have v: "valid_url u" by simp
  from assms(1) have p: "CHR ''['' \<notin> set (ev_snippet e @ '' '')" by simp
  have "cited e @ t = (ev_snippet e @ '' '') @ marker u @ t"
    by (simp add: cited_def Some marker_def)
  then have "source_findall (cited e @ t) = source_findall (marker u @ t)"
    using findall_prose[OF p] by simp
  with findall_marker[OF v] Some show ?thesis by simp
qed

lemma serialized_text_round_trip:
  "\<forall>e \<in> set evs. CHR ''['' \<notin> set (ev_snippet e) \<and> (\<forall>u. ev_source e = Some u \<longrightarrow> valid_url u) \<Longrightarrow>
     source_findall (spec_serialize evs) = List.map_filter ev_source evs"
proof (induction evs rule: induct_list012)
  case 1
  show ?case by (simp add: List.map_filter_simps)
next
  case (2 e)
  then have "source_findall (cited e @ []) =
      (case ev_source e of None \<Rightarrow> [] | Some u \<Rightarrow> [u]) @ source_findall []"
    by (intro findall_cited) simp_all
  then show ?case by (simp add: List.map_filter_simps split: option.splits)
next
  case (3 e e' es)
  have sp: "CHR ''['' \<notin> set '' ''" by simp
  from 3 have "source_findall (cited e @ '' '' @ spec_serialize (e' # es)) =
      (case ev_source e of None \<Rightarrow> [] | Some u \<Rightarrow> [u])
        @ source_findall ('' '' @ spec_serialize (e' # es))"
    by (intro findall_cited) simp_all
  also have "source_findall ('' '' @ spec_serialize (e' # es)) = source_findall (spec_serialize (e' # es))"
    by (rule findall_prose[OF sp])
  also from 3 have "\<dots> = List.map_filter ev_source (e' # es)" by simp
  finally show ?case by (simp add: List.map_filter_simps split: option.splits)
qed





section \<open>Properties of the retry loop\<close>

subsection \<open>A response with an error status\<close>

lemma retry_loop_http_error:
  assumes run: "retry_loop post uniform max_retries st = Some y"
    and bad: "\<not> response_ok r"
  shows "\<not> ((\<forall>i. post i = Responds r) \<and> not_response (response st) \<and> num_fails st < max_retries)"
proof (rule retry_loop.raw_induct
    [where P = "\<lambda>post uniform max_retries st y.
       \<not> ((\<forall>i. post i = Responds r) \<and> not_response (response st) \<and> num_fails st < max_retries)",
     OF _ run], goal_cases)
  case (1 loop post uniform max_retries st y)
  show ?case
  proof
    assume inv: "(\<forall>i. post i = Responds r) \<and> not_response (response st) \<and> num_fails st < max_retries"
    let ?st' = "st\<lparr>response := Some r, attempts := Suc (attempts st)\<rparr>"
    from inv 1(2) have "loop post uniform max_retries ?st' = Some y"
      by simp
    from 1(1)[OF this] inv bad show False
      by simp
  qed
qed

lemma retry_loop_diverges:
  assumes "\<forall>i. post i = Responds r" "\<not> response_ok r" "0 < max_retries"
  shows "retry_loop post uniform max_retries initial_retry_state = None"
proof (cases "retry_loop post uniform max_retries initial_retry_state")
  case None
  then show ?thesis .
next
  case (Some y)
  from retry_loop_http_error[OF Some assms(2)] assms(1,3) show ?thesis
    by (simp add: initial_retry_state_def)
qed

text \<open>
  Claim C1 fails on the code. A response with an error status is not an exception: the
  loop tests \<open>not response\<close>, which holds for it, and goes round again without counting a
  failure and without sleeping. Against a backend that answers every request with HTTP
  500 the loop never ends, for the default bound of 3 as for any positive bound: the
  call returns nothing and raises nothing.
\<close>

theorem http_error_status_retried_forever:
  "google_serper_api_results always_http_500 (\<lambda>i. 2) 3 = None
   \<and> run (\<lambda>v. []) default_client always_http_500 (\<lambda>i. 2) 3 = None"
proof -
  have "retry_loop always_http_500 (\<lambda>i. 2) 3 initial_retry_state = None"
    by (rule retry_loop_diverges[where r = "\<lparr>status_code = 500, body = None\<rparr>"])
       (simp_all add: always_http_500_def response_ok_def)
  then show ?thesis
    by (simp add: google_serper_api_results_def run_def default_client_def)
qed

subsection \<open>Requests that raise\<close>

text \<open>
  When every request raises (a network error or a timeout), the loop does what the claim
  says: exactly \<open>max_retries\<close> requests, the first delay the number drawn, each further
  delay twice the one before up to 10, all within the window when the draw lies in
  \<open>[1, 3]\<close>, and then \<open>ValueError\<close>.
\<close>

lemma retry_raise_step:
  assumes "post (attempts st) = Raises e" "e \<noteq> AssertionError"
    "response st = None" "num_fails st < max_retries"
  shows "retry_loop post uniform max_retries st
       = retry_loop post uniform max_retries (fail_once uniform st)"
  using assms by (subst retry_loop.simps) simp

lemma fail_once_fields:
  "response (fail_once uniform st) = None"
  "num_fails (fail_once uniform st) = num_fails st + 1"
  "attempts (fail_once uniform st) = Suc (attempts st)"
  by (simp_all add: fail_once_def Let_def)

lemma funpow_fail_once_fields:
  "num_fails ((fail_once uniform ^^ n) st) = num_fails st + int n"
  "attempts ((fail_once uniform ^^ n) st) = attempts st + n"
  "response st = None \<Longrightarrow> response ((fail_once uniform ^^ n) st) = None"
  by (induction n) (simp_all add: fail_once_fields)

text \<open>A run of \<open>n\<close> requests that raise takes the loop through \<open>n\<close> handlers.\<close>
lemma retry_loop_failures:
  assumes "\<forall>i < n. \<exists>e. post (attempts st + i) = Raises e \<and> e \<noteq> AssertionError"
    and "response st = None" and "num_fails st + int n \<le> max_retries"
  shows "retry_loop post uniform max_retries st
       = retry_loop post uniform max_retries ((fail_once uniform ^^ n) st)"
  using assms
proof (induction n)
  case 0
  show ?case by simp
next
  case (Suc n)
  let ?sn = "(fail_once uniform ^^ n) st"
  from Suc.prems have "retry_loop post uniform max_retries st
       = retry_loop post uniform max_retries ?sn"
    by (intro Suc.IH) auto
  moreover from Suc.prems obtain e where "post (attempts st + n) = Raises e" "e \<noteq> AssertionError"
    by blast
  then have "retry_loop post uniform max_retries ?sn
      = retry_loop post uniform max_retries (fail_once uniform ?sn)"
    using Suc.prems by (intro retry_raise_step) (simp_all add: funpow_fail_once_fields)
  ultimately show ?case by simp
qed

lemma sleeps_after_positive:
  "0 < sleep_time st \<Longrightarrow>
     sleeps ((fail_once uniform ^^ n) st)
       = sleeps st @ backoff_delays (min (sleep_time st * 2) 10) n"
proof (induction n arbitrary: st)
  case 0
  show ?case by simp
next
  case (Suc n)
  let ?d = "min (sleep_time st * 2) 10"
  from Suc.prems have d: "0 < ?d" by simp
  then have ne: "?d \<noteq> 0" by simp
  have f: "sleep_time (fail_once uniform st) = ?d" "sleeps (fail_once uniform st) = sleeps st @ [?d]"
    using ne by (simp_all add: fail_once_def Let_def)
  from d f have "0 < sleep_time (fail_once uniform st)" by simp
  from Suc.IH[OF this] f show ?case
    by (simp add: funpow_swap1)
qed

lemma sleeps_from_start:
  assumes "0 < uniform 0"
  shows "sleeps ((fail_once uniform ^^ n) initial_retry_state) = backoff_delays (uniform 0) n"
proof (cases n)
  case 0
  then show ?thesis by (simp add: initial_retry_state_def)
next
  case (Suc m)
  have f: "sleep_time (fail_once uniform initial_retry_state) = uniform 0"
    "sleeps (fail_once uniform initial_retry_state) = [uniform 0]"
    by (simp_all add: fail_once_def initial_retry_state_def Let_def)
  with assms have "0 < sleep_time (fail_once uniform initial_retry_state)" by simp
  from sleeps_after_positive[where uniform = uniform and n = m, OF this] f Suc show ?thesis
    by (simp add: funpow_swap1)
qed

lemma backoff_delays_window:
  "1 \<le> d \<Longrightarrow> d \<le> 10 \<Longrightarrow> \<forall>x \<in> set (backoff_delays d n). 1 \<le> x \<and> x \<le> 10"
proof (induction n arbitrary: d)
  case 0
  show ?case by simp
next
  case (Suc n)
  from Suc.prems have "1 \<le> min (d * 2) 10" "min (d * 2) 10 \<le> 10" by simp_all
  from Suc.IH[OF this] Suc.prems show ?case by simp
qed

lemma retry_loop_exhausted:
  assumes raises: "\<forall>i. \<exists>e. post i = Raises e \<and> e \<noteq> AssertionError"
  shows "retry_loop post uniform max_retries initial_retry_state
       = Some (None, (fail_once uniform ^^ nat max_retries) initial_retry_state)"
proof (cases "0 \<le> max_retries")
  case True
  let ?n = "nat max_retries"
  let ?sn = "(fail_once uniform ^^ ?n) initial_retry_state"
  have "retry_loop post uniform max_retries initial_retry_state
      = retry_loop post uniform max_retries ?sn"
    using raises True by (intro retry_loop_failures) (simp_all add: initial_retry_state_def)
  also have "\<dots> = Some (None, ?sn)"
    using True
    by (subst retry_loop.simps) (simp add: funpow_fail_once_fields initial_retry_state_def)
  finally show ?thesis .
next
  case False
  then show ?thesis
    by (subst retry_loop.simps) (simp add: initial_retry_state_def)
qed

lemma retry_bounded_on_exceptions:
  assumes raises: "\<forall>i. \<exists>e. post i = Raises e \<and> e \<noteq> AssertionError"
    and draw: "1 \<le> uniform 0" "uniform 0 \<le> 3"
  shows "\<exists>st. google_serper_api_results post uniform max_retries = Some (Inl ValueError, st)
     \<and> attempts st = nat max_retries
     \<and> sleeps st = backoff_delays (uniform 0) (nat max_retries)
     \<and> (\<forall>x \<in> set (sleeps st). 1 \<le> x \<and> x \<le> 10)"
proof -
  let ?sn = "(fail_once uniform ^^ nat max_retries) initial_retry_state"
  have r: "response ?sn = None"
    by (rule funpow_fail_once_fields) (simp add: initial_retry_state_def)
  from draw have pos: "0 < uniform 0" by simp
  have w: "\<forall>x \<in> set (backoff_delays (uniform 0) (nat max_retries)). 1 \<le> x \<and> x \<le> 10"
    using draw by (intro backoff_delays_window) simp_all
  have "google_serper_api_results post uniform max_retries = Some (Inl ValueError, ?sn)"
    by (simp add: google_serper_api_results_def retry_loop_exhausted[OF raises] r)
  moreover have "attempts ?sn = nat max_retries"
    by (simp add: funpow_fail_once_fields initial_retry_state_def)
  moreover have "sleeps ?sn = backoff_delays (uniform 0) (nat max_retries)"
    using pos by (rule sleeps_from_start)
  ultimately show ?thesis using w by simp
qed

lemma always_timeout_exhausts:
  "\<exists>st. google_serper_api_results always_timeout (\<lambda>i. 2) 3 = Some (Inl ValueError, st)
     \<and> attempts st = 3 \<and> sleeps st = [2, 4, 8]"
proof -
  have r: "\<forall>i. \<exists>e. always_timeout i = Raises e \<and> e \<noteq> AssertionError"
    by (simp add: always_timeout_def)
  have d: "(1::real) \<le> (\<lambda>i::nat. 2) 0" "(\<lambda>i::nat. 2::real) 0 \<le> 3" by simp_all
  from retry_bounded_on_exceptions[where uniform = "\<lambda>i. 2" and max_retries = 3, OF r d]
  obtain st where st: "google_serper_api_results always_timeout (\<lambda>i. 2) 3 = Some (Inl ValueError, st)
     \<and> attempts st = nat 3
     \<and> sleeps st = backoff_delays ((\<lambda>i. 2) 0) (nat 3)
     \<and> (\<forall>x \<in> set (sleeps st). 1 \<le> x \<and> x \<le> 10)" ..
  have "backoff_delays (2::real) (Suc (Suc (Suc 0))) = [2, 4, 8]" by simp
  with st have "google_serper_api_results always_timeout (\<lambda>i. 2) 3 = Some (Inl ValueError, st)
     \<and> attempts st = 3 \<and> sleeps st = [2, 4, 8]"
    by (simp add: numeral_3_eq_3)
  then show ?thesis by (rule exI)
qed

subsection \<open>The missing key\<close>

lemma assertion_error_propagates:
  assumes before: "\<forall>i < n. \<exists>e. post i = Raises e \<and> e \<noteq> AssertionError"
    and now: "post n = Raises AssertionError" and lt: "int n < max_retries"
  shows "\<exists>st. google_serper_api_results post uniform max_retries = Some (Inl AssertionError, st)
     \<and> attempts st = Suc n \<and> num_fails st = int n"
proof -
  let ?sn = "(fail_once uniform ^^ n) initial_retry_state"
  have a: "attempts ?sn = n" "num_fails ?sn = int n" "response ?sn = None"
    by (simp_all add: funpow_fail_once_fields initial_retry_state_def)
  have "retry_loop post uniform max_retries initial_retry_state
      = retry_loop post uniform max_retries ?sn"
    using before lt by (intro retry_loop_failures) (simp_all add: initial_retry_state_def)
  also have "\<dots> = Some (Some AssertionError, ?sn\<lparr>attempts := Suc (attempts ?sn)\<rparr>)"
    using now lt a by (subst retry_loop.simps) simp
  finally show ?thesis
    using a by (simp add: google_serper_api_results_def)
qed

text \<open>
  Claim C9. With an empty API key \<open>run\<close> raises \<open>AssertionError\<close> before any request is
  posted and before any delay. An \<open>AssertionError\<close> raised inside the loop, after any
  number of failed requests below the bound, leaves the loop at once and reaches the
  caller of \<open>run\<close>: it is not counted as a failure and not retried.
\<close>

theorem missing_key_assertion:
  "(serper_api_key self = [] \<longrightarrow>
      run str_of self post uniform max_retries = Some (Inl AssertionError, 0, []))
   \<and> ((\<forall>i < n. \<exists>e. post i = Raises e \<and> e \<noteq> AssertionError)
        \<and> post n = Raises AssertionError \<and> int n < max_retries \<and> serper_api_key self \<noteq> [] \<longrightarrow>
      (\<exists>sl. run str_of self post uniform max_retries = Some (Inl AssertionError, Suc n, sl)))"
proof (intro conjI impI)
  assume "serper_api_key self = []"
  then show "run str_of self post uniform max_retries = Some (Inl AssertionError, 0, [])"
    by (simp add: run_def)
next
  assume a: "(\<forall>i < n. \<exists>e. post i = Raises e \<and> e \<noteq> AssertionError)
        \<and> post n = Raises AssertionError \<and> int n < max_retries \<and> serper_api_key self \<noteq> []"
  then obtain st where "google_serper_api_results post uniform max_retries = Some (Inl AssertionError, st)"
    "attempts st = Suc n"
    using assertion_error_propagates[of n post max_retries uniform] by blast
  with a show "\<exists>sl. run str_of self post uniform max_retries = Some (Inl AssertionError, Suc n, sl)"
    by (simp add: run_def)
qed

theorem missing_key_assertion_witness:
  "run (\<lambda>v. []) (default_client\<lparr>serper_api_key := []\<rparr>) always_timeout (\<lambda>i. 2) 3
     = Some (Inl AssertionError, 0, [])
   \<and> (\<exists>sl. run (\<lambda>v. []) default_client assertion_on_second (\<lambda>i. 2) 3
     = Some (Inl AssertionError, Suc 1, sl))"
proof -
  have h1: "serper_api_key (default_client\<lparr>serper_api_key := []\<rparr>) = []" by simp
  have h2: "(\<forall>i < 1. \<exists>e. assertion_on_second i = Raises e \<and> e \<noteq> AssertionError)
      \<and> assertion_on_second 1 = Raises AssertionError \<and> int 1 < 3
      \<and> serper_api_key default_client \<noteq> []"
    by (simp add: assertion_on_second_def default_client_def)
  have c1: "run (\<lambda>v. []) (default_client\<lparr>serper_api_key := []\<rparr>) always_timeout (\<lambda>i. 2) 3
     = Some (Inl AssertionError, 0, [])"
    by (rule mp[OF conjunct1[OF missing_key_assertion[where n = 0]] h1])
  have c2: "\<exists>sl. run (\<lambda>v. []) default_client assertion_on_second (\<lambda>i. 2) 3
     = Some (Inl AssertionError, Suc 1, sl)"
    by (rule mp[OF conjunct2[OF missing_key_assertion[where self = default_client
              and str_of = "\<lambda>v. []" and uniform = "\<lambda>i. 2"]] h2])
  from c1 c2 show ?thesis by (rule conjI)
qed

section \<open>Properties of the orchestrator\<close>

lemma step_remaining:
  "\<not> terminal st \<Longrightarrow> step decide search budget st = Some st' \<Longrightarrow>
     remaining budget st' < remaining budget st"
  by (cases "phase st")
     (auto simp: terminal_def step_def awaiting_decision_def searching_def Let_def
           split: prod.splits decision.splits sum.splits option.splits if_splits)

lemma step_inv: "run_inv st \<Longrightarrow> step decide search budget st = Some st' \<Longrightarrow> run_inv st'"
  by (cases "phase st")
     (auto simp: run_inv_def step_def awaiting_decision_def searching_def Let_def
           split: prod.splits decision.splits sum.splits option.splits if_splits)

lemma step_mono:
  assumes "step decide search budget st = Some st'"
  shows "(\<exists>bs. batches st' = batches st @ bs) \<and> usage_le (cumulative_usage st) (cumulative_usage st')"
  using assms
  by (cases "phase st")
     (auto simp: step_def awaiting_decision_def searching_def Let_def usage_le_def add_usage_def
           split: prod.splits decision.splits sum.splits option.splits if_splits)

lemma step_returns:
  "\<forall>i q. search i q \<noteq> None \<Longrightarrow> \<exists>st'. step decide search budget st = Some st'"
  by (cases "phase st") (auto simp: step_def searching_def split: option.splits sum.splits)

lemma orchestrate_returns:
  assumes ret: "\<forall>i q. search i q \<noteq> None"
  shows "\<exists>st'. orchestrate decide search budget st = Some st' \<and> terminal st'
      \<and> (run_inv st \<longrightarrow> run_inv st')
      \<and> (\<exists>bs. batches st' = batches st @ bs)
      \<and> usage_le (cumulative_usage st) (cumulative_usage st')"
proof (induction "remaining budget st" arbitrary: st rule: less_induct)
  case less
  show ?case
  proof (cases "terminal st")
    case True
    then have "orchestrate decide search budget st = Some st"
      by (subst orchestrate.simps) simp
    with True show ?thesis by (simp add: usage_le_def)
  next
    case False
    from step_returns[OF ret] obtain st1 where s1: "step decide search budget st = Some st1"
      by blast
    from step_remaining[OF False s1] have "remaining budget st1 < remaining budget st" .
    from less[OF this] obtain st' where st':
      "orchestrate decide search budget st1 = Some st'" "terminal st'"
      "run_inv st1 \<longrightarrow> run_inv st'" "\<exists>bs. batches st' = batches st1 @ bs"
      "usage_le (cumulative_usage st1) (cumulative_usage st')"
      by blast
    from False s1 st'(1) have o: "orchestrate decide search budget st = Some st'"
      by (subst orchestrate.simps) simp
    from step_mono[OF s1] st'(4,5)
    have "(\<exists>bs. batches st' = batches st @ bs) \<and> usage_le (cumulative_usage st) (cumulative_usage st')"
      by (auto simp: usage_le_def)
    moreover from step_inv[OF _ s1] st'(3) have "run_inv st \<longrightarrow> run_inv st'" by blast
    ultimately show ?thesis using o st'(2) by blast
  qed
qed

lemma orchestrate_reach:
  "reach decide search budget c st \<Longrightarrow>
     orchestrate decide search budget st = orchestrate decide search budget (init_state c)"
proof (induction rule: reach.induct)
  case reach_init
  show ?case by simp
next
  case (reach_step st st')
  then have "orchestrate decide search budget st = orchestrate decide search budget st'"
    by (subst orchestrate.simps) simp
  with reach_step show ?case by simp
qed

lemma reach_inv: "reach decide search budget c st \<Longrightarrow> run_inv st"
proof (induction rule: reach.induct)
  case reach_init
  show ?case by (simp add: run_inv_def init_state_def)
next
  case (reach_step st st')
  from step_inv[OF reach_step(4) reach_step(3)] show ?case .
qed

lemma verify_of_failed:
  assumes "reach decide search budget c st" "step decide search budget st = Some st'"
    "\<not> terminal st" "phase st' = S_FAILED"
  shows "verify decide search budget c = Some (None, batches st', cumulative_usage st')"
proof -
  from assms(4) have t: "terminal st'" by (simp add: terminal_def)
  have "orchestrate decide search budget st = orchestrate decide search budget st'"
    using assms(2,3) by (subst orchestrate.simps) simp
  also have "\<dots> = Some st'" using t by (subst orchestrate.simps) simp
  finally have "orchestrate decide search budget (init_state c) = Some st'"
    using orchestrate_reach[OF assms(1)] by simp
  with assms(4) show ?thesis by (simp add: verify_def)
qed

text \<open>
  What the orchestrator does with a failure, at any state a run passes through. An
  exception of the search client, an exception of the reasoning client and a second (or
  forced) unparseable reply each end the run with a null verdict, the batches collected
  so far and the usage of every call made. A search that does not return keeps \<open>verify\<close>
  from returning. When every search returns, \<open>verify\<close> returns a triple that keeps the
  batches (as a prefix) and the usage (as a lower bound) of that state.
\<close>

lemma verify_converts_failures:
  assumes r: "reach decide search budget c st"
  shows "(phase st = S_SEARCHING q \<and> search (length (batches st)) q = Some (Inl e)
           \<longrightarrow> verify decide search budget c = Some (None, batches st, cumulative_usage st))
    \<and> (phase st = S_AWAITING_DECISION \<and> iteration_count st < budget
         \<and> decide (iteration_count st)
              (if budget = Suc (iteration_count st) then ForceFinal
               else if reprompted st then Corrective else Normal) (claim st) (batches st)
            = Inr (UNPARSEABLE, u)
         \<and> (reprompted st \<or> budget = Suc (iteration_count st))
           \<longrightarrow> verify decide search budget c
                 = Some (None, batches st, add_usage (cumulative_usage st) u))
    \<and> (phase st = S_AWAITING_DECISION \<and> iteration_count st < budget
         \<and> decide (iteration_count st)
              (if budget = Suc (iteration_count st) then ForceFinal
               else if reprompted st then Corrective else Normal) (claim st) (batches st)
            = Inl e
           \<longrightarrow> verify decide search budget c = Some (None, batches st, cumulative_usage st))
    \<and> (phase st = S_SEARCHING q \<and> search (length (batches st)) q = None
           \<longrightarrow> verify decide search budget c = None)
    \<and> ((\<forall>i q. search i q \<noteq> None) \<longrightarrow>
          (\<exists>v bs us. verify decide search budget c = Some (v, bs, us)
             \<and> (\<exists>cs. bs = batches st @ cs) \<and> usage_le (cumulative_usage st) us))"
proof (intro conjI impI)
  assume a: "phase st = S_SEARCHING q \<and> search (length (batches st)) q = Some (Inl e)"
  then have "step decide search budget st = Some (st\<lparr>phase := S_FAILED\<rparr>)"
    by (simp add: step_def searching_def)
  from verify_of_failed[OF r this] a
  show "verify decide search budget c = Some (None, batches st, cumulative_usage st)"
    by (simp add: terminal_def)
next
  assume a: "phase st = S_AWAITING_DECISION \<and> iteration_count st < budget
         \<and> decide (iteration_count st)
              (if budget = Suc (iteration_count st) then ForceFinal
               else if reprompted st then Corrective else Normal) (claim st) (batches st)
            = Inr (UNPARSEABLE, u)
         \<and> (reprompted st \<or> budget = Suc (iteration_count st))"
  let ?st' = "st\<lparr>iteration_count := Suc (iteration_count st),
                  cumulative_usage := add_usage (cumulative_usage st) u, phase := S_FAILED\<rparr>"
  from a have "step decide search budget st = Some ?st'"
    by (auto simp: step_def awaiting_decision_def Let_def)
  from verify_of_failed[OF r this] a
  show "verify decide search budget c = Some (None, batches st, add_usage (cumulative_usage st) u)"
    by (simp add: terminal_def)
next
  assume a: "phase st = S_AWAITING_DECISION \<and> iteration_count st < budget
         \<and> decide (iteration_count st)
              (if budget = Suc (iteration_count st) then ForceFinal
               else if reprompted st then Corrective else Normal) (claim st) (batches st)
            = Inl e"
  let ?st' = "st\<lparr>iteration_count := Suc (iteration_count st), phase := S_FAILED\<rparr>"
  from a have "step decide search budget st = Some ?st'"
    by (auto simp: step_def awaiting_decision_def Let_def)
  from verify_of_failed[OF r this] a
  show "verify decide search budget c = Some (None, batches st, cumulative_usage st)"
    by (simp add: terminal_def)
next
  assume a: "phase st = S_SEARCHING q \<and> search (length (batches st)) q = None"
  then have "orchestrate decide search budget st = None"
    by (subst orchestrate.simps) (simp add: terminal_def step_def searching_def)
  with orchestrate_reach[OF r] show "verify decide search budget c = None"
    by (simp add: verify_def)
next
  assume ret: "\<forall>i q. search i q \<noteq> None"
  from orchestrate_returns[OF ret, of decide budget st] obtain st' where st':
    "orchestrate decide search budget st = Some st'"
    "\<exists>bs. batches st' = batches st @ bs" "usage_le (cumulative_usage st) (cumulative_usage st')"
    by blast
  from st'(1) orchestrate_reach[OF r]
  have "orchestrate decide search budget (init_state c) = Some st'" by simp
  then have "verify decide search budget c
      = Some (if phase st' = S_DONE then verdict st' else None, batches st', cumulative_usage st')"
    by (simp add: verify_def)
  with st'(2,3) show "\<exists>v bs us. verify decide search budget c = Some (v, bs, us)
             \<and> (\<exists>cs. bs = batches st @ cs) \<and> usage_le (cumulative_usage st) us"
    by blast
qed

text \<open>
  A search returns whenever the backend never answers with an error status, and then
  \<open>verify\<close> returns.
\<close>

lemma retry_loop_returns:
  assumes ok: "\<forall>j r. post j = Responds r \<longrightarrow> response_ok r"
  shows "nat (max_retries - num_fails st) = n \<Longrightarrow>
     \<exists>y. retry_loop post uniform max_retries st = Some y"
proof (induction n arbitrary: st)
  case 0
  then have "\<not> num_fails st < max_retries" by simp
  then have "retry_loop post uniform max_retries st = Some (None, st)"
    by (subst retry_loop.simps) simp
  then show ?case by blast
next
  case (Suc n)
  show ?case
  proof (cases "not_response (response st) \<and> num_fails st < max_retries")
    case False
    then have "retry_loop post uniform max_retries st = Some (None, st)"
      by (subst retry_loop.simps) auto
    then show ?thesis by blast
  next
    case True
    show ?thesis
    proof (cases "post (attempts st)")
      case (Responds r)
      let ?st' = "st\<lparr>response := Some r, attempts := Suc (attempts st)\<rparr>"
      from ok Responds have "response_ok r" by blast
      then have "retry_loop post uniform max_retries ?st' = Some (None, ?st')"
        by (subst retry_loop.simps) simp
      moreover from True Responds have "retry_loop post uniform max_retries st
          = retry_loop post uniform max_retries ?st'"
        by (subst retry_loop.simps) simp
      ultimately show ?thesis by simp
    next
      case (Raises e)
      show ?thesis
      proof (cases "e = AssertionError")
        case True
        with \<open>not_response (response st) \<and> num_fails st < max_retries\<close> Raises
        have "retry_loop post uniform max_retries st
            = Some (Some e, st\<lparr>attempts := Suc (attempts st)\<rparr>)"
          by (subst retry_loop.simps) simp
        then show ?thesis by blast
      next
        case False
        with True Raises have "retry_loop post uniform max_retries st
            = retry_loop post uniform max_retries (fail_once uniform st)"
          by (subst retry_loop.simps) simp
        moreover from Suc.prems have "nat (max_retries - num_fails (fail_once uniform st)) = n"
          by (simp add: fail_once_fields)
        from Suc.IH[OF this] obtain y where
          "retry_loop post uniform max_retries (fail_once uniform st) = Some y" by blast
        ultimately show ?thesis by simp
      qed
    qed
  qed
qed

lemma run_returns:
  assumes "\<forall>j r. post j = Responds r \<longrightarrow> response_ok r"
  shows "\<exists>y. run str_of self post uniform max_retries = Some y"
proof -
  from retry_loop_returns[OF assms refl] obtain y where
    "retry_loop post uniform max_retries initial_retry_state = Some y" by blast
  then show ?thesis
    by (cases y) (auto simp: run_def google_serper_api_results_def split: option.splits sum.splits)
qed

lemma serper_search_returns:
  assumes "\<forall>i q j r. backend i q j = Responds r \<longrightarrow> response_ok r"
  shows "serper_search str_of self backend draws max_retries i q \<noteq> None"
proof -
  from assms have "\<forall>j r. backend i q j = Responds r \<longrightarrow> response_ok r" by blast
  from run_returns[OF this] show ?thesis by (auto simp: serper_search_def)
qed

lemma verify_returns:
  assumes "\<forall>i q j r. backend i q j = Responds r \<longrightarrow> response_ok r"
  shows "\<exists>v bs us. verify decide (serper_search str_of self backend draws max_retries) budget c
      = Some (v, bs, us)"
proof -
  let ?search = "serper_search str_of self backend draws max_retries"
  have "\<forall>i q. ?search i q \<noteq> None"
    using serper_search_returns[OF assms] by blast
  moreover have "reach decide ?search budget c (init_state c)" by (rule reach_init)
  ultimately show ?thesis
    using verify_converts_failures[where decide = decide and search = ?search and budget = budget
        and c = c and st = "init_state c"]
    by blast
qed

text \<open>Exhausted retries (a backend that always times out) give a null verdict with the
  usage of the one call made.\<close>

lemma serper_search_timeout:
  "serper_search (\<lambda>v. []) default_client (\<lambda>i q. always_timeout) (\<lambda>i j. 2) 3 i q = Some (Inl ValueError)"
proof -
  from always_timeout_exhausts obtain st where
    "google_serper_api_results always_timeout (\<lambda>i. 2) 3 = Some (Inl ValueError, st)" by blast
  then show ?thesis by (simp add: serper_search_def run_def default_client_def)
qed

lemma verify_converts_exhaustion:
  "verify always_search (serper_search (\<lambda>v. []) default_client (\<lambda>i q. always_timeout) (\<lambda>i j. 2) 3)
      5 ''claim'' = Some (None, [], stub_usage)"
proof -
  let ?search = "serper_search (\<lambda>v. []) default_client (\<lambda>i q. always_timeout) (\<lambda>i j. 2) 3"
  let ?s1 = "(init_state ''claim'')\<lparr>phase := S_AWAITING_DECISION\<rparr>"
  let ?s2 = "awaiting_decision always_search 5 ?s1"
  have s2: "?s2 = (init_state ''claim'')\<lparr>iteration_count := 1, cumulative_usage := stub_usage,
       phase := S_SEARCHING ''Eiffel Tower location''\<rparr>"
    by (simp add: awaiting_decision_def always_search_def init_state_def Let_def add_usage_def
        stub_usage_def)
  have r0: "reach always_search ?search 5 ''claim'' (init_state ''claim'')"
    by (rule reach_init)
  have r1: "reach always_search ?search 5 ''claim'' ?s1"
    by (rule reach_step[OF r0]) (simp_all add: terminal_def step_def init_state_def)
  have r2: "reach always_search ?search 5 ''claim'' ?s2"
    by (rule reach_step[OF r1]) (simp_all add: terminal_def step_def init_state_def)
  have "phase ?s2 = S_SEARCHING ''Eiffel Tower location''
      \<and> ?search (length (batches ?s2)) ''Eiffel Tower location'' = Some (Inl ValueError)"
    by (simp add: s2 serper_search_timeout)
  with verify_converts_failures[OF r2]
  have "verify always_search ?search 5 ''claim'' = Some (None, batches ?s2, cumulative_usage ?s2)"
    by blast
  then show ?thesis unfolding s2 by (simp add: init_state_def)
qed

lemma serper_search_http_error:
  assumes "serper_api_key self \<noteq> []"
  shows "serper_search str_of self (\<lambda>i q. always_http_500) draws 3 i q = None"
proof -
  have "retry_loop always_http_500 (draws i) 3 initial_retry_state = None"
    by (rule retry_loop_diverges[where r = "\<lparr>status_code = 500, body = None\<rparr>"])
       (simp_all add: always_http_500_def response_ok_def)
  with assms show ?thesis
    by (simp add: serper_search_def run_def google_serper_api_results_def)
qed

text \<open>
  Claim C7 fails on the program, by the defect of claim C1. The reasoning client asks for
  a search, the backend answers every request with HTTP 500, the retry loop of the search
  client never ends, and \<open>verify\<close> never returns: no triple, no null verdict.
\<close>

theorem verify_hangs_on_http_error:
  "verify always_search (serper_search (\<lambda>v. []) default_client (\<lambda>i q. always_http_500) (\<lambda>i j. 2) 3)
      5 ''claim'' = None"
proof -
  let ?search = "serper_search (\<lambda>v. []) default_client (\<lambda>i q. always_http_500) (\<lambda>i j. 2) 3"
  let ?s1 = "(init_state ''claim'')\<lparr>phase := S_AWAITING_DECISION\<rparr>"
  let ?s2 = "awaiting_decision always_search 5 ?s1"
  have key: "serper_api_key default_client \<noteq> []" by (simp add: default_client_def)
  have p2: "phase ?s2 = S_SEARCHING ''Eiffel Tower location''"
    by (simp add: awaiting_decision_def always_search_def init_state_def Let_def)
  have r0: "reach always_search ?search 5 ''claim'' (init_state ''claim'')"
    by (rule reach_init)
  have r1: "reach always_search ?search 5 ''claim'' ?s1"
    by (rule reach_step[OF r0]) (simp_all add: terminal_def step_def init_state_def)
  have r2: "reach always_search ?search 5 ''claim'' ?s2"
    by (rule reach_step[OF r1]) (simp_all add: terminal_def step_def init_state_def)
  from serper_search_http_error[OF key] p2
  have "phase ?s2 = S_SEARCHING ''Eiffel Tower location''
      \<and> ?search (length (batches ?s2)) ''Eiffel Tower location'' = None" by simp
  with verify_converts_failures[OF r2] show ?thesis by blast
qed

end
